theory Spec2Isabelle
  imports Main
begin

section \<open>Errors, promises and task descriptors\<close>

text \<open>
  The three messages of \<open>FiberError\<close> in \<open>src/index.ts\<close>; the concurrency message carries
  the offending value.
\<close>

datatype usage =
    CannotStartWhileIterating
  | CannotIterateWhileRunning
  | ConcurrencyNotPositive int

datatype error =
    FiberError usage
  | AggregateError "error list"
  | AbortError
  | Failure nat

text \<open>
  A promise is pending (\<open>None\<close>) or settled. The resolve and reject functions handed out by
  the \<open>Promise\<close> constructor settle a pending promise and do nothing on a settled one.
\<close>

datatype 'v settlement = Fulfilled 'v | Rejected error

definition promise_resolve :: "'v \<Rightarrow> 'v settlement option \<Rightarrow> 'v settlement option" where
  "promise_resolve v p = (case p of None \<Rightarrow> Some (Fulfilled v) | Some x \<Rightarrow> Some x)"

definition promise_reject :: "error \<Rightarrow> 'v settlement option \<Rightarrow> 'v settlement option" where
  "promise_reject e p = (case p of None \<Rightarrow> Some (Rejected e) | Some x \<Rightarrow> Some x)"

text \<open>
  A unit of work is the promise returned by one factory call: its identity \<open>pid\<close> (the pools
  are keyed by object identity) and the settlement the host will give it, \<open>fate\<close>. Whether
  it has settled yet is kept in the engine's environment (\<open>unsettled\<close> below).
\<close>

record 'v task =
  pid :: nat
  fate :: "'v settlement"

text \<open>A factory call throws synchronously or returns a promise.\<close>

datatype 'v started = Throws error | Promise "'v settlement"

record ('s, 'v) FiberTaskFactory =
  source :: 's
  factory :: "'s \<Rightarrow> 'v started"

datatype reason = ReasonNext | ReasonUnknown

datatype directive = Stop | Skip | Default

type_synonym FiberErrorHandler = "error \<Rightarrow> reason \<Rightarrow> directive"

section \<open>The work source\<close>

text \<open>
  The generator objects made by \<open>_sequence\<close> and \<open>_iterator\<close>, as their suspended state:
  the loop variable of \<open>for (let i = start; i < end; i += step)\<close>, or the items not yet
  visited. \<open>Finished\<close> is a generator that has returned.

  The numbers of a range are the integers that a double holds exactly, and \<open>i += step\<close>
  rounds the exact sum to the nearest double, ties to the even significand
  (\<open>double_round\<close>: the identity up to \<open>2^53\<close>, beyond it a multiple of the unit in the last
  place). Magnitudes beyond the range of doubles are not modelled.
\<close>

fun bit_length :: "nat \<Rightarrow> nat" where
  "bit_length n = (if n = 0 then 0 else Suc (bit_length (n div 2)))"

definition double_round :: "int \<Rightarrow> int" where
  "double_round x =
     (if \<bar>x\<bar> \<le> 9007199254740992 then x
      else (let u = 2 ^ (bit_length (nat \<bar>x\<bar>) - 53);
                q = \<bar>x\<bar> div u;
                r = \<bar>x\<bar> mod u;
                q' = (if u < 2 * r \<or> (2 * r = u \<and> odd q) then q + 1 else q)
            in sgn x * q' * u))"

datatype ('s, 'v) generator =
    Sequence int int int "int \<Rightarrow> ('s, 'v) FiberTaskFactory"
  | Iterator "'s list" "'s \<Rightarrow> ('s, 'v) FiberTaskFactory"
  | Finished

fun generator_next ::
  "('s, 'v) generator \<Rightarrow> ('s, 'v) FiberTaskFactory option \<times> ('s, 'v) generator" where
  "generator_next (Sequence i e st f) =
     (if i < e then (Some (f i), Sequence (double_round (i + st)) e st f)
      else (None, Finished))"
| "generator_next (Iterator [] f) = (None, Finished)"
| "generator_next (Iterator (x # xs) f) = (Some (f x), Iterator xs f)"
| "generator_next Finished = (None, Finished)"

section \<open>The engine\<close>

text \<open>
  The result of an iteration step, and the place where a call of \<open>next()\<close> made by the
  background job is suspended: at \<open>await Promise.race(runningPool)\<close>, with its local
  \<open>activeTask\<close> and the promises handed to the race, or at an \<open>await\<close> after which nothing
  but the delivery of the result is left.
\<close>

datatype 'v iter_result = Value 'v | Done

datatype 'v suspension =
    AwaitRace "'v task option" "'v task list"
  | AwaitEnd "error + 'v iter_result"

text \<open>
  The fields of class \<open>Fibers\<close>, followed by the part of the host the engine interacts with:
  \<^item> \<open>callbackResolveThrows\<close>, \<open>callbackRejectThrows\<close>: what a call of \<open>_callbackResolve\<close> /
    \<open>_callbackReject\<close> throws after settling the promise (\<open>None\<close> for the functions of a
    native promise, which is what the constructor stores);
  \<^item> \<open>generatorDisposable\<close>: whether the generator object has a \<open>[Symbol.dispose]\<close>
    method (\<open>_cleanup\<close> calls it through \<open>?.\<close>);
  \<^item> \<open>unsettled\<close>: the promises returned by factories that have not settled yet;
  \<^item> \<open>nextPid\<close>: the identity of the next promise object;
  \<^item> \<open>invoked\<close>: the sources on which a factory has been called, in call order;
  \<^item> \<open>backgroundJobAt\<close>: where the coroutine of \<open>_runInBackground\<close> is suspended, if it is.
  \<open>activeBackgroundJob\<close> is \<open>True\<close> when the field holds a promise. The concurrency level
  is an integer.
\<close>

record ('s, 'v) fibers =
  runningTaskPool :: "'v task list"
  finishedTaskPool :: "'v task list"
  generator :: "('s, 'v) generator"
  isCompleted :: bool
  isGeneratorConsuming :: bool
  allowBackgroundJobRunning :: bool
  activeBackgroundJob :: bool
  isFailed :: bool
  isResolvedOrRejected :: bool
  fibersPromise :: "unit settlement option"
  b_concurrency :: int
  b_errorHandler :: "FiberErrorHandler option"
  callbackResolveThrows :: "error option"
  callbackRejectThrows :: "error option"
  generatorDisposable :: bool
  unsettled :: "'v task list"
  nextPid :: nat
  invoked :: "'s list"
  backgroundJobAt :: "'v suspension option"

text \<open>\<open>Set.add\<close> and \<open>Set.delete\<close> on an insertion-ordered set.\<close>

definition set_add :: "'a \<Rightarrow> 'a list \<Rightarrow> 'a list" where
  "set_add x xs = (if x \<in> set xs then xs else xs @ [x])"

definition set_delete :: "'a \<Rightarrow> 'a list \<Rightarrow> 'a list" where
  "set_delete x xs = filter (\<lambda>y. y \<noteq> x) xs"

text \<open>The constructor; the concurrency setter validates the level first.\<close>

definition new_fibers :: "int \<Rightarrow> ('s, 'v) generator \<Rightarrow> bool \<Rightarrow> ('s, 'v) fibers" where
  "new_fibers c g d =
     \<lparr> runningTaskPool = [], finishedTaskPool = [], generator = g,
       isCompleted = False, isGeneratorConsuming = False,
       allowBackgroundJobRunning = False, activeBackgroundJob = False,
       isFailed = False, isResolvedOrRejected = False, fibersPromise = None,
       b_concurrency = c, b_errorHandler = None,
       callbackResolveThrows = None, callbackRejectThrows = None,
       generatorDisposable = d, unsettled = [], nextPid = 0, invoked = [],
       backgroundJobAt = None \<rparr>"

definition set_concurrency :: "int \<Rightarrow> ('s, 'v) fibers \<Rightarrow> error + ('s, 'v) fibers" where
  "set_concurrency v s =
     (if v \<le> 0 then Inl (FiberError (ConcurrencyNotPositive v))
      else Inr (s\<lparr>b_concurrency := v\<rparr>))"

definition Fibers_new :: "int \<Rightarrow> ('s, 'v) generator \<Rightarrow> bool \<Rightarrow> error + ('s, 'v) fibers" where
  "Fibers_new c g d =
     (if c \<le> 0 then Inl (FiberError (ConcurrencyNotPositive c)) else Inr (new_fibers c g d))"

definition Fibers_for ::
  "int \<Rightarrow> int \<Rightarrow> int \<Rightarrow> int \<Rightarrow> (int \<Rightarrow> 'v started) \<Rightarrow> bool \<Rightarrow> error + (int, 'v) fibers" where
  "Fibers_for c start end step f d =
     Fibers_new c (Sequence start end step (\<lambda>src. \<lparr>source = src, factory = f\<rparr>)) d"

definition Fibers_forEach ::
  "int \<Rightarrow> 's list \<Rightarrow> ('s \<Rightarrow> 'v started) \<Rightarrow> bool \<Rightarrow> error + ('s, 'v) fibers" where
  "Fibers_forEach c items f d =
     Fibers_new c (Iterator items (\<lambda>src. \<lparr>source = src, factory = f\<rparr>)) d"

definition setErrorHandler ::
  "FiberErrorHandler option \<Rightarrow> ('s, 'v) fibers \<Rightarrow> ('s, 'v) fibers" where
  "setErrorHandler h s = s\<lparr>b_errorHandler := h\<rparr>"

section \<open>Teardown and settlement of the lifecycle handle\<close>

text \<open>\<open>this._generator[Symbol.dispose]?.()\<close>: a generator's dispose method makes it return.\<close>

definition generator_dispose :: "bool \<Rightarrow> ('s, 'v) generator \<Rightarrow> ('s, 'v) generator" where
  "generator_dispose d g = (if d then Finished else g)"

definition cleanup :: "('s, 'v) fibers \<Rightarrow> ('s, 'v) fibers" where
  "cleanup s =
     s\<lparr> isCompleted := True, isGeneratorConsuming := False,
        allowBackgroundJobRunning := False, activeBackgroundJob := False,
        generator := generator_dispose (generatorDisposable s) (generator s),
        runningTaskPool := [], finishedTaskPool := [] \<rparr>"

text \<open>
  Both settlement functions return what they throw, if anything. Their bodies run
  synchronously up to \<open>await this._cleanup()\<close>, whose effects are immediate as well.
\<close>

definition resolveIfNotFailedAndCleanup ::
  "('s, 'v) fibers \<Rightarrow> error option \<times> ('s, 'v) fibers" where
  "resolveIfNotFailedAndCleanup s =
     (if \<not> isResolvedOrRejected s
      then (callbackResolveThrows s,
            cleanup (s\<lparr> isResolvedOrRejected := True,
                        fibersPromise := promise_resolve () (fibersPromise s) \<rparr>))
      else (None, cleanup s))"

definition raiseErrorAndCleanup ::
  "error \<Rightarrow> ('s, 'v) fibers \<Rightarrow> error option \<times> ('s, 'v) fibers" where
  "raiseErrorAndCleanup e s =
     (let s1 = s\<lparr>isFailed := True\<rparr> in
      if \<not> isResolvedOrRejected s1
      then ((case callbackRejectThrows s1 of
               None \<Rightarrow> None
             | Some other \<Rightarrow> Some (AggregateError [other, e])),
            cleanup (s1\<lparr> isResolvedOrRejected := True,
                         fibersPromise := promise_reject e (fibersPromise s1) \<rparr>))
      else (None, cleanup s1))"

section \<open>Consumption protocols\<close>

text \<open>What \<open>start()\<close> and \<open>stop()\<close> return: a fresh resolved promise or the job's promise.\<close>

datatype handle = ResolvedPromise | BackgroundJob

definition stop :: "('s, 'v) fibers \<Rightarrow> handle \<times> ('s, 'v) fibers" where
  "stop s =
     (let s1 = s\<lparr>allowBackgroundJobRunning := False\<rparr> in
      if activeBackgroundJob s1 then (BackgroundJob, s1) else (ResolvedPromise, s1))"

definition asyncIterator :: "('s, 'v) fibers \<Rightarrow> (error + unit) \<times> ('s, 'v) fibers" where
  "asyncIterator s =
     (if activeBackgroundJob s then (Inl (FiberError CannotIterateWhileRunning), s)
      else (Inr (), s\<lparr>isGeneratorConsuming := True\<rparr>))"

definition throw :: "error \<Rightarrow> ('s, 'v) fibers \<Rightarrow> (error + 'v iter_result) \<times> ('s, 'v) fibers" where
  "throw e s =
     (case raiseErrorAndCleanup e s of
        (Some aggregate, s') \<Rightarrow> (Inl aggregate, s')
      | (None, s') \<Rightarrow> (Inl e, s'))"

definition return :: "('s, 'v) fibers \<Rightarrow> (error + 'v iter_result) \<times> ('s, 'v) fibers" where
  "return s =
     (case resolveIfNotFailedAndCleanup s of
        (Some x, s') \<Rightarrow> (Inl x, s')
      | (None, s') \<Rightarrow> (Inr Done, s'))"

definition asyncDispose :: "('s, 'v) fibers \<Rightarrow> ('s, 'v) fibers" where
  "asyncDispose s = cleanup s"

section \<open>The host settling a promise\<close>

text \<open>
  The host settles the pending promise with identity \<open>p\<close>; its \<open>finally\<close> callback, attached
  by the refill loop, then adds it to the finished pool. Both happen before the engine
  runs again.
\<close>

definition settle :: "nat \<Rightarrow> ('s, 'v) fibers \<Rightarrow> ('s, 'v) fibers" where
  "settle p s =
     (case find (\<lambda>t. pid t = p) (unsettled s) of
        None \<Rightarrow> s
      | Some t \<Rightarrow> s\<lparr> unsettled := set_delete t (unsettled s),
                     finishedTaskPool := set_add t (finishedTaskPool s) \<rparr>)"

section \<open>The advance step\<close>

text \<open>
  JavaScript runs the code between two \<open>await\<close>s without interruption. A call of \<open>next()\<close>
  is modelled from its start to its end: while it waits, the only thing that happens is
  the host settling promises, in the order given by the argument \<open>sched\<close> (identities of
  promises); what is left of \<open>sched\<close> is returned. Other calls on the engine take place
  between calls of \<open>next()\<close>. The value carried by a \<open>done\<close> result is not modelled.
\<close>

text \<open>
  The refill loop of \<open>next()\<close>, with the local \<open>activeTask\<close> threaded through. It ends by
  \<open>break\<close> or by its condition (\<open>None\<close>), or with the error a factory call throws. A promise
  returned by a factory call is a new object, so \<open>runningPool.add\<close> appends it.
\<close>

function refill ::
  "int \<Rightarrow> ('s, 'v) fibers \<Rightarrow> 'v task option
     \<Rightarrow> error option \<times> 'v task option \<times> ('s, 'v) fibers" where
  "refill taskSize s activeTask =
     (if int (length (runningTaskPool s)) < taskSize then
        (case generator_next (generator s) of
           (None, g) \<Rightarrow> (None, activeTask, s\<lparr>generator := g\<rparr>)
         | (Some nextItem, g) \<Rightarrow>
             (case factory nextItem (source nextItem) of
                Throws e \<Rightarrow>
                  (Some e, activeTask,
                   s\<lparr>generator := g, invoked := invoked s @ [source nextItem]\<rparr>)
              | Promise outcome \<Rightarrow>
                  (let newTask = \<lparr>pid = nextPid s, fate = outcome\<rparr> in
                   refill taskSize
                     (s\<lparr> generator := g, invoked := invoked s @ [source nextItem],
                         nextPid := Suc (nextPid s),
                         unsettled := unsettled s @ [newTask],
                         runningTaskPool := runningTaskPool s @ [newTask] \<rparr>)
                     (Some newTask))))
      else (None, activeTask, s))"
  by pat_completeness auto
termination
  by (relation "measure (\<lambda>(taskSize, s, a). nat (taskSize - int (length (runningTaskPool s))))")
     auto

text \<open>
  \<open>await Promise.race(runningPool)\<close>: the first already settled promise in insertion order
  wins; with none settled the call waits for the host, whose settlements arrive in the
  order \<open>sched\<close>. \<open>None\<close>: nothing in the pool ever settles and the await never returns.
\<close>

definition settled :: "('s, 'v) fibers \<Rightarrow> 'v task \<Rightarrow> bool" where
  "settled s t = (t \<notin> set (unsettled s))"

fun race ::
  "nat list \<Rightarrow> ('s, 'v) fibers \<Rightarrow> ('v task \<times> ('s, 'v) fibers \<times> nat list) option" where
  "race [] s =
     (case find (settled s) (runningTaskPool s) of
        Some w \<Rightarrow> Some (w, s, [])
      | None \<Rightarrow> None)"
| "race (p # sched) s =
     (case find (settled s) (runningTaskPool s) of
        Some w \<Rightarrow> Some (w, s, p # sched)
      | None \<Rightarrow> race sched (settle p s))"

text \<open>
  How the \<open>try\<close> block of \<open>next()\<close> ends: by its \<open>return\<close>, by an exception, or by reaching
  \<open>loopFinished = true\<close>.
\<close>

datatype 'v try_outcome = TryReturn 'v | TryThrow error | TryLoopFinished

text \<open>
  The \<open>try\<close> block, with \<open>activeTask\<close> as it stands when the block is left. The spin on
  \<open>finishedPool.size === 0\<close> yields to microtasks only, so with an empty finished pool it
  never ends (\<open>None\<close>). A promise taken from the finished pool has settled, so awaiting it
  gives its fate.
\<close>

definition next_try ::
  "nat list \<Rightarrow> ('s, 'v) fibers
     \<Rightarrow> ('v try_outcome \<times> 'v task option \<times> ('s, 'v) fibers \<times> nat list) option" where
  "next_try sched s =
     (case refill (b_concurrency s) s None of
        (Some e, activeTask, s1) \<Rightarrow> Some (TryThrow e, activeTask, s1, sched)
      | (None, activeTask, s1) \<Rightarrow>
          if runningTaskPool s1 \<noteq> [] then
            (case race sched s1 of
               None \<Rightarrow> None
             | Some (w, s2, sched2) \<Rightarrow>
                 (case fate w of
                    Rejected e \<Rightarrow> Some (TryThrow e, activeTask, s2, sched2)
                  | Fulfilled _ \<Rightarrow>
                      (case finishedTaskPool s2 of
                         [] \<Rightarrow> None
                       | finishedTask # _ \<Rightarrow>
                           (case fate finishedTask of
                              Fulfilled v \<Rightarrow> Some (TryReturn v, Some finishedTask, s2, sched2)
                            | Rejected e \<Rightarrow> Some (TryThrow e, Some finishedTask, s2, sched2)))))
          else Some (TryLoopFinished, activeTask, s1, sched))"

text \<open>
  The \<open>catch\<close> block: the value of \<open>loopFinished\<close>, the exception it rethrows, the state.
  The promise of \<open>_raiseErrorAndCleanup\<close> is not awaited, so what it throws is not seen here.
\<close>

definition catch_block ::
  "error \<Rightarrow> ('s, 'v) fibers \<Rightarrow> bool \<times> error option \<times> ('s, 'v) fibers" where
  "catch_block e s =
     (case (case b_errorHandler s of None \<Rightarrow> Default | Some h \<Rightarrow> h e ReasonNext) of
        Stop \<Rightarrow> (True, None, s)
      | Skip \<Rightarrow> (False, None, s)
      | Default \<Rightarrow> (False, Some e, snd (raiseErrorAndCleanup e s)))"

text \<open>The \<open>finally\<close> block: what it throws, and the state.\<close>

definition finally_block ::
  "'v task option \<Rightarrow> bool \<Rightarrow> ('s, 'v) fibers \<Rightarrow> error option \<times> ('s, 'v) fibers" where
  "finally_block activeTask loopFinished s =
     (let s1 = (case activeTask of
                  None \<Rightarrow> s
                | Some t \<Rightarrow> s\<lparr> runningTaskPool := set_delete t (runningTaskPool s),
                               finishedTaskPool := set_delete t (finishedTaskPool s) \<rparr>)
      in if loopFinished then resolveIfNotFailedAndCleanup s1 else (None, s1))"

text \<open>
  What follows the \<open>try\<close> block: \<open>catch\<close> if it threw, \<open>finally\<close>, then the result of the
  call, or \<open>Again\<close> for the tail call \<open>return this.next()\<close>.
\<close>

datatype 'v completion = Return "'v iter_result" | Throw error | Again

definition next_after ::
  "'v try_outcome \<Rightarrow> 'v task option \<Rightarrow> ('s, 'v) fibers \<Rightarrow> 'v completion \<times> ('s, 'v) fibers" where
  "next_after outcome activeTask s =
     (case outcome of
        TryReturn v \<Rightarrow>
          (case finally_block activeTask False s of
             (Some x, s') \<Rightarrow> (Throw x, s')
           | (None, s') \<Rightarrow> (Return (Value v), s'))
      | TryLoopFinished \<Rightarrow>
          (case finally_block activeTask True s of
             (Some x, s') \<Rightarrow> (Throw x, s')
           | (None, s') \<Rightarrow> (Return Done, s'))
      | TryThrow e \<Rightarrow>
          (case catch_block e s of
             (loopFinished, rethrown, s1) \<Rightarrow>
               (case finally_block activeTask loopFinished s1 of
                  (Some x, s') \<Rightarrow> (Throw x, s')
                | (None, s') \<Rightarrow>
                    (case rethrown of
                       Some e' \<Rightarrow> (Throw e', s')
                     | None \<Rightarrow> (if loopFinished then Return Done else Again, s')))))"

text \<open>
  \<open>next()\<close>. The tail call may repeat without bound, so the recursion carries fuel;
  \<open>None\<close> is a call that has not returned (out of fuel, or blocked in the \<open>try\<close> block).
\<close>

fun "next" ::
  "nat \<Rightarrow> nat list \<Rightarrow> ('s, 'v) fibers
     \<Rightarrow> ((error + 'v iter_result) \<times> ('s, 'v) fibers \<times> nat list) option" where
  "next 0 sched s = None"
| "next (Suc n) sched s =
     (case next_try sched s of
        None \<Rightarrow> None
      | Some (outcome, activeTask, s1, sched1) \<Rightarrow>
          (case next_after outcome activeTask s1 of
             (Return r, s2) \<Rightarrow> Some (Inr r, s2, sched1)
           | (Throw e, s2) \<Rightarrow> Some (Inl e, s2, sched1)
           | (Again, s2) \<Rightarrow> next n sched1 s2))"

text \<open>
  The body of \<open>_runInBackground\<close>: the loop condition, the \<open>finally\<close> block, and the loop
  from its condition on, which returns how the job's promise settles.
\<close>

definition background_continues :: "('s, 'v) fibers \<Rightarrow> bool" where
  "background_continues s =
     (allowBackgroundJobRunning s \<and> \<not> isFailed s \<and> \<not> isCompleted s)"

definition background_finally :: "('s, 'v) fibers \<Rightarrow> ('s, 'v) fibers" where
  "background_finally s = s\<lparr>allowBackgroundJobRunning := False, activeBackgroundJob := False\<rparr>"

fun runInBackground ::
  "nat \<Rightarrow> nat list \<Rightarrow> ('s, 'v) fibers
     \<Rightarrow> ((error + unit) \<times> ('s, 'v) fibers \<times> nat list) option" where
  "runInBackground 0 sched s = None"
| "runInBackground (Suc n) sched s =
     (if background_continues s then
        (case next n sched s of
           None \<Rightarrow> None
         | Some (Inl e, s1, sched1) \<Rightarrow> Some (Inl e, background_finally s1, sched1)
         | Some (Inr Done, s1, sched1) \<Rightarrow> Some (Inr (), background_finally s1, sched1)
         | Some (Inr (Value v), s1, sched1) \<Rightarrow> runInBackground n sched1 s1)
      else Some (Inr (), background_finally s, sched))"

section \<open>Background driving\<close>

text \<open>
  \<open>start()\<close> calls \<open>_runInBackground()\<close> before it stores the job's promise, and that call
  runs synchronously up to the first \<open>await\<close> that suspends it: through the loop
  condition into \<open>next()\<close>, its refill loop and, where nothing is in flight or a factory
  throws, its \<open>catch\<close> and \<open>finally\<close> blocks and the tail call. \<open>next_begin\<close> is that
  synchronous part of \<open>next()\<close> (fuel for the tail calls) and \<open>next_resume\<close> the rest of the
  call, from the place where it was suspended.
\<close>

fun next_begin ::
  "nat \<Rightarrow> ('s, 'v) fibers \<Rightarrow> ('v suspension \<times> ('s, 'v) fibers) option" where
  "next_begin 0 s = None"
| "next_begin (Suc n) s =
     (case refill (b_concurrency s) s None of
        (Some e, activeTask, s1) \<Rightarrow>
          (case next_after (TryThrow e) activeTask s1 of
             (Return r, s2) \<Rightarrow> Some (AwaitEnd (Inr r), s2)
           | (Throw x, s2) \<Rightarrow> Some (AwaitEnd (Inl x), s2)
           | (Again, s2) \<Rightarrow> next_begin n s2)
      | (None, activeTask, s1) \<Rightarrow>
          if runningTaskPool s1 \<noteq> []
          then Some (AwaitRace activeTask (runningTaskPool s1), s1)
          else (case next_after TryLoopFinished activeTask s1 of
                  (Return r, s2) \<Rightarrow> Some (AwaitEnd (Inr r), s2)
                | (Throw x, s2) \<Rightarrow> Some (AwaitEnd (Inl x), s2)
                | (Again, s2) \<Rightarrow> next_begin n s2))"

text \<open>
  The race over the promises it was given (the running pool may have been cleared since),
  and the rest of the \<open>try\<close> block once the race is won by \<open>w\<close>.
\<close>

fun race_over ::
  "'v task list \<Rightarrow> nat list \<Rightarrow> ('s, 'v) fibers
     \<Rightarrow> ('v task \<times> ('s, 'v) fibers \<times> nat list) option" where
  "race_over pool [] s =
     (case find (settled s) pool of
        Some w \<Rightarrow> Some (w, s, [])
      | None \<Rightarrow> None)"
| "race_over pool (p # sched) s =
     (case find (settled s) pool of
        Some w \<Rightarrow> Some (w, s, p # sched)
      | None \<Rightarrow> race_over pool sched (settle p s))"

definition after_race ::
  "'v task \<Rightarrow> 'v task option \<Rightarrow> ('s, 'v) fibers \<Rightarrow> ('v try_outcome \<times> 'v task option) option" where
  "after_race w activeTask s =
     (case fate w of
        Rejected e \<Rightarrow> Some (TryThrow e, activeTask)
      | Fulfilled _ \<Rightarrow>
          (case finishedTaskPool s of
             [] \<Rightarrow> None
           | finishedTask # _ \<Rightarrow>
               (case fate finishedTask of
                  Fulfilled v \<Rightarrow> Some (TryReturn v, Some finishedTask)
                | Rejected e \<Rightarrow> Some (TryThrow e, Some finishedTask))))"

definition next_resume ::
  "nat \<Rightarrow> nat list \<Rightarrow> 'v suspension \<Rightarrow> ('s, 'v) fibers
     \<Rightarrow> ((error + 'v iter_result) \<times> ('s, 'v) fibers \<times> nat list) option" where
  "next_resume n sched k s =
     (case k of
        AwaitEnd r \<Rightarrow> Some (r, s, sched)
      | AwaitRace activeTask pool \<Rightarrow>
          (case race_over pool sched s of
             None \<Rightarrow> None
           | Some (w, s2, sched2) \<Rightarrow>
               (case after_race w activeTask s2 of
                  None \<Rightarrow> None
                | Some (outcome, activeTask') \<Rightarrow>
                    (case next_after outcome activeTask' s2 of
                       (Return r, s3) \<Rightarrow> Some (Inr r, s3, sched2)
                     | (Throw e, s3) \<Rightarrow> Some (Inl e, s3, sched2)
                     | (Again, s3) \<Rightarrow> next n sched2 s3))))"

text \<open>
  \<open>start()\<close>. Its last branch runs the job up to its suspension inside the first
  \<open>next()\<close> and then stores the job's promise, also when that synchronous part has torn the
  engine down. \<open>None\<close>: the synchronous part does not end.
\<close>

definition start ::
  "nat \<Rightarrow> ('s, 'v) fibers \<Rightarrow> ((error + handle) \<times> ('s, 'v) fibers) option" where
  "start n s =
     (if isGeneratorConsuming s then Some (Inl (FiberError CannotStartWhileIterating), s)
      else if isCompleted s \<or> isFailed s then Some (Inr ResolvedPromise, s)
      else if activeBackgroundJob s then Some (Inr BackgroundJob, s)
      else (case next_begin n (s\<lparr>allowBackgroundJobRunning := True\<rparr>) of
              None \<Rightarrow> None
            | Some (k, s1) \<Rightarrow>
                Some (Inr BackgroundJob,
                      s1\<lparr>activeBackgroundJob := True, backgroundJobAt := Some k\<rparr>)))"

text \<open>
  The suspended job taken up again by the host: the rest of its first \<open>next()\<close>, then the
  loop of \<open>_runInBackground\<close>. Without a suspended job nothing happens.
\<close>

definition resumeInBackground ::
  "nat \<Rightarrow> nat list \<Rightarrow> ('s, 'v) fibers
     \<Rightarrow> ((error + unit) \<times> ('s, 'v) fibers \<times> nat list) option" where
  "resumeInBackground n sched s =
     (case backgroundJobAt s of
        None \<Rightarrow> Some (Inr (), s, sched)
      | Some k \<Rightarrow>
          (case next_resume n sched k (s\<lparr>backgroundJobAt := None\<rparr>) of
             None \<Rightarrow> None
           | Some (Inl e, s1, sched1) \<Rightarrow> Some (Inl e, background_finally s1, sched1)
           | Some (Inr Done, s1, sched1) \<Rightarrow> Some (Inr (), background_finally s1, sched1)
           | Some (Inr (Value v), s1, sched1) \<Rightarrow> runInBackground n sched1 s1))"

section \<open>Cancellable delay\<close>

text \<open>
  \<open>Fibers.delay(milliseconds, ac)\<close> as the state its closure holds: the returned promise,
  the timer (\<open>NotStarted\<close> until \<open>setTimeout\<close> is called, \<open>Released\<close> after
  \<open>clearTimeout\<close>), whether \<open>onAbort\<close> is registered on the signal, and the signal's
  \<open>aborted\<close> flag (\<open>None\<close> without a controller). The host can fire an armed timer
  (\<open>timer_fires\<close>) and the caller can abort the controller (\<open>abort\<close>).
\<close>

definition createAbortError :: error where
  "createAbortError = AbortError"

datatype timer = NotStarted | Armed int | Released

record delay_state =
  delayPromise :: "unit settlement option"
  timeoutId :: timer
  abortListener :: bool
  signalAborted :: "bool option"

definition delay :: "int \<Rightarrow> bool option \<Rightarrow> delay_state" where
  "delay milliseconds ac =
     (if ac = Some True
      then \<lparr> delayPromise = promise_reject createAbortError None, timeoutId = NotStarted,
             abortListener = False, signalAborted = ac \<rparr>
      else \<lparr> delayPromise = None, timeoutId = Armed milliseconds,
             abortListener = (ac \<noteq> None), signalAborted = ac \<rparr>)"

definition delay_cleanup :: "delay_state \<Rightarrow> delay_state" where
  "delay_cleanup d = d\<lparr>timeoutId := Released, abortListener := False\<rparr>"

definition timer_fires :: "delay_state \<Rightarrow> delay_state" where
  "timer_fires d =
     (case timeoutId d of
        Armed _ \<Rightarrow> (let d1 = delay_cleanup d
                    in d1\<lparr>delayPromise := promise_resolve () (delayPromise d1)\<rparr>)
      | _ \<Rightarrow> d)"

definition abort :: "delay_state \<Rightarrow> delay_state" where
  "abort d =
     (case signalAborted d of
        Some False \<Rightarrow>
          (let d1 = d\<lparr>signalAborted := Some True\<rparr> in
           if abortListener d1
           then (let d2 = delay_cleanup d1
                 in d2\<lparr>delayPromise := promise_reject createAbortError (delayPromise d2)\<rparr>)
           else d1)
      | _ \<Rightarrow> d)"

datatype delay_event = TimerFires | Abort

fun delay_run :: "delay_event list \<Rightarrow> delay_state \<Rightarrow> delay_state" where
  "delay_run [] d = d"
| "delay_run (TimerFires # evs) d = delay_run evs (timer_fires d)"
| "delay_run (Abort # evs) d = delay_run evs (abort d)"

definition timer_armed :: "delay_state \<Rightarrow> bool" where
  "timer_armed d = (case timeoutId d of Armed _ \<Rightarrow> True | _ \<Rightarrow> False)"

definition delay_released :: "delay_state \<Rightarrow> bool" where
  "delay_released d = (delayPromise d = None \<or> \<not> timer_armed d)"


section \<open>Engines used as concrete inputs\<close>

definition doubling :: "int \<Rightarrow> int started" where
  "doubling i = Promise (Fulfilled (2 * i))"

definition engine_range :: "(int, int) fibers" where
  "engine_range = new_fibers 2 (Sequence 0 5 1 (\<lambda>src. \<lparr>source = src, factory = doubling\<rparr>)) True"

definition engine_iterating :: "(int, int) fibers" where
  "engine_iterating = snd (asyncIterator engine_range)"


section \<open>Frames and invariants\<close>

text \<open>What the refill loop, the host and the \<open>try\<close> block may change.\<close>

definition try_frame :: "('s, 'v) fibers \<Rightarrow> ('s, 'v) fibers \<Rightarrow> bool" where
  "try_frame s s' =
     (s' = s\<lparr> generator := generator s', invoked := invoked s', nextPid := nextPid s',
              unsettled := unsettled s', runningTaskPool := runningTaskPool s',
              finishedTaskPool := finishedTaskPool s' \<rparr>)"


section \<open>Operations, traces and further inputs\<close>

text \<open>
  What every operation other than the concurrency setter guarantees between
  the state it is called on and the state it leaves; used to carry invariants through
  \<open>next()\<close> and the background loop.
\<close>

definition evolves :: "('s, 'v) fibers \<Rightarrow> ('s, 'v) fibers \<Rightarrow> bool" where
  "evolves s s' =
     ((\<forall>x. fibersPromise s = Some x \<longrightarrow> fibersPromise s' = Some x) \<and>
      (isCompleted s \<longrightarrow> isCompleted s') \<and>
      b_concurrency s' = b_concurrency s \<and>
      int (length (runningTaskPool s')) \<le> max (int (length (runningTaskPool s))) (b_concurrency s) \<and>
      callbackResolveThrows s' = callbackResolveThrows s \<and>
      callbackRejectThrows s' = callbackRejectThrows s \<and>
      (generator s = Finished \<and> runningTaskPool s = [] \<longrightarrow>
         generator s' = Finished \<and> runningTaskPool s' = [] \<and>
         invoked s' = invoked s \<and> nextPid s' = nextPid s) \<and>
      (\<not> isCompleted s' \<longrightarrow>
         isResolvedOrRejected s' = isResolvedOrRejected s \<and>
         fibersPromise s' = fibersPromise s \<and> isFailed s' = isFailed s))"

text \<open>
  The calls a user or the host can make on an engine, and the state each leaves (also when
  the call throws); \<open>None\<close> when the call does not return. \<open>run\<close> performs a sequence of
  them.
\<close>

datatype operation =
    OpStart nat | OpStop | OpAsyncIterator | OpNext nat "nat list" | OpReturn | OpThrow error
  | OpAsyncDispose | OpSetConcurrency int | OpSetErrorHandler "FiberErrorHandler option"
  | OpRunInBackground nat "nat list" | OpSettle nat

fun perform :: "operation \<Rightarrow> ('s, 'v) fibers \<Rightarrow> ('s, 'v) fibers option" where
  "perform (OpStart n) s = map_option snd (start n s)"
| "perform OpStop s = Some (snd (stop s))"
| "perform OpAsyncIterator s = Some (snd (asyncIterator s))"
| "perform (OpNext n sched) s = map_option (\<lambda>(r, s', sched'). s') (next n sched s)"
| "perform OpReturn s = Some (snd (return s))"
| "perform (OpThrow e) s = Some (snd (throw e s))"
| "perform OpAsyncDispose s = Some (asyncDispose s)"
| "perform (OpSetConcurrency v) s = Some (case set_concurrency v s of Inl e \<Rightarrow> s | Inr s' \<Rightarrow> s')"
| "perform (OpSetErrorHandler h) s = Some (setErrorHandler h s)"
| "perform (OpRunInBackground n sched) s =
     map_option (\<lambda>(r, s', sched'). s') (resumeInBackground n sched s)"
| "perform (OpSettle p) s = Some (settle p s)"

fun run :: "operation list \<Rightarrow> ('s, 'v) fibers \<Rightarrow> ('s, 'v) fibers option" where
  "run [] s = Some s"
| "run (op # ops) s = (case perform op s of None \<Rightarrow> None | Some s' \<Rightarrow> run ops s')"

text \<open>The bound on the running pool.\<close>

definition pool_bounded :: "('s, 'v) fibers \<Rightarrow> bool" where
  "pool_bounded s = (int (length (runningTaskPool s)) \<le> b_concurrency s)"

text \<open>
  An invariant of the engines reached from the constructor: the promise's own resolve
  and reject functions do not throw, and until completion the lifecycle handle is pending
  and the run has not failed.
\<close>

definition wellformed :: "('s, 'v) fibers \<Rightarrow> bool" where
  "wellformed s =
     (callbackResolveThrows s = None \<and> callbackRejectThrows s = None \<and>
      (\<not> isCompleted s \<longrightarrow>
         \<not> isResolvedOrRejected s \<and> fibersPromise s = None \<and> \<not> isFailed s))"

text \<open>Factories, engines and observations used as concrete inputs.\<close>

definition failing_at :: "int \<Rightarrow> int \<Rightarrow> int started" where
  "failing_at k i = (if i = k then Promise (Rejected (Failure 0)) else Promise (Fulfilled i))"

definition engine_three :: "(int, int) fibers" where
  "engine_three = new_fibers 3 (Sequence 0 10 1 (\<lambda>src. \<lparr>source = src, factory = doubling\<rparr>)) True"

definition pool_size_and_level :: "('s, 'v) fibers \<Rightarrow> nat \<times> int" where
  "pool_size_and_level s = (length (runningTaskPool s), b_concurrency s)"




definition engine_returned :: "(int, int) fibers" where
  "engine_returned = snd (return engine_range)"




definition engine_skip :: "(int, int) fibers" where
  "engine_skip =
     setErrorHandler (Some (\<lambda>e r. Skip))
       (new_fibers 2 (Iterator [10, 20] (\<lambda>src. \<lparr>source = src, factory = failing_at 10\<rparr>)) True)"



text \<open>
  One pass through \<open>next()\<close> as data: how the \<open>try\<close> block ended, the identity of
  \<open>activeTask\<close>, what follows, and the identities left in the running and finished pools.
\<close>

definition advance_trace ::
  "nat list \<Rightarrow> ('s, 'v) fibers
     \<Rightarrow> ('v try_outcome \<times> nat option \<times> 'v completion \<times> nat list \<times> nat list) option" where
  "advance_trace sched s =
     (case next_try sched s of
        None \<Rightarrow> None
      | Some (outcome, activeTask, s1, sched1) \<Rightarrow>
          (case next_after outcome activeTask s1 of
             (c, s2) \<Rightarrow>
               Some (outcome, map_option pid activeTask, c,
                     map pid (runningTaskPool s2), map pid (finishedTaskPool s2))))"




section \<open>Properties\<close>

declare refill.simps [simp del]

declare bit_length.simps [simp del]

subsection \<open>Ranges\<close>

lemma double_round_exact [simp]: "\<bar>x\<bar> \<le> 9007199254740992 \<Longrightarrow> double_round x = x"
  by (simp add: double_round_def)

text \<open>
  Beyond \<open>2^53\<close> an increment of 1 is lost: \<open>2^53 + 1\<close> rounds back to \<open>2^53\<close>, and the range
  from \<open>2^53\<close> to \<open>2^53 + 2\<close> by 1 yields \<open>2^53\<close> for ever.
\<close>

lemma double_round_tie: "double_round 9007199254740993 = 9007199254740992"
  by (simp add: double_round_def bit_length.simps Let_def)

lemma sequence_stuck:
  "generator_next (Sequence 9007199254740992 9007199254740994 1 f)
     = (Some (f 9007199254740992), Sequence 9007199254740992 9007199254740994 1 f)"
  by (simp add: double_round_tie)

subsection \<open>The refill loop\<close>

lemma try_frame_refl: "try_frame s s"
  by (simp add: try_frame_def)

lemma try_frame_trans: "try_frame s t \<Longrightarrow> try_frame t u \<Longrightarrow> try_frame s u"
  unfolding try_frame_def
  by (cases s, cases t, cases u) simp

lemma refill_changes:
  "refill c s a = (r, a', s') \<Longrightarrow>
   try_frame s s' \<and> finishedTaskPool s' = finishedTaskPool s \<and>
   length (runningTaskPool s) \<le> length (runningTaskPool s') \<and>
   int (length (runningTaskPool s')) \<le> max (int (length (runningTaskPool s))) c"
proof (induction c s a arbitrary: r a' s' rule: refill.induct)
  case (1 taskSize s activeTask)
  show ?case
  proof (cases "int (length (runningTaskPool s)) < taskSize")
    case False
    with "1.prems" show ?thesis
      by (subst (asm) refill.simps) (simp add: try_frame_refl)
  next
    case True
    obtain item g where gn: "generator_next (generator s) = (item, g)"
      by (cases "generator_next (generator s)")
    show ?thesis
    proof (cases item)
      case None
      with "1.prems" True gn show ?thesis
        by (subst (asm) refill.simps) (auto simp: try_frame_def)
    next
      case (Some nextItem)
      show ?thesis
      proof (cases "factory nextItem (source nextItem)")
        case (Throws e)
        with "1.prems" True gn Some show ?thesis
          by (subst (asm) refill.simps) (auto simp: try_frame_def)
      next
        case (Promise outcome)
        let ?t = "\<lparr>pid = nextPid s, fate = outcome\<rparr>"
        let ?s2 = "s\<lparr> generator := g, invoked := invoked s @ [source nextItem],
                      nextPid := Suc (nextPid s), unsettled := unsettled s @ [?t],
                      runningTaskPool := runningTaskPool s @ [?t] \<rparr>"
        from "1.prems" True gn Some Promise
        have rec: "refill taskSize ?s2 (Some ?t) = (r, a', s')"
          by (subst (asm) refill.simps) (simp add: Let_def)
        have ih: "try_frame ?s2 s' \<and> finishedTaskPool s' = finishedTaskPool ?s2 \<and>
              length (runningTaskPool ?s2) \<le> length (runningTaskPool s') \<and>
              int (length (runningTaskPool s')) \<le> max (int (length (runningTaskPool ?s2))) taskSize"
          using "1.IH" [OF True gn [symmetric] Some Promise refl rec] .
        have fr: "try_frame s ?s2" by (simp add: try_frame_def)
        from ih fr True show ?thesis
          by (auto intro: try_frame_trans)
      qed
    qed
  qed
qed

subsection \<open>Starting inside an open foreground session\<close>

text \<open>
  C1 (as amended). With a foreground session open (\<open>isGeneratorConsuming\<close>), \<open>start()\<close> is
  rejected at once with the usage error "Cannot start while iterating over fibers" and
  changes nothing: no background job is launched, and the session's later steps run on
  the state they would have had without the call. (The first argument of \<open>start\<close> is the
  fuel of its last branch, which this branch does not use.)
\<close>

theorem start_while_iterating_rejected:
  "isGeneratorConsuming s \<Longrightarrow> start n s = Some (Inl (FiberError CannotStartWhileIterating), s)"
  by (simp add: start_def)

theorem start_while_iterating_rejected_witness:
  "isGeneratorConsuming engine_iterating \<and>
   start 1 engine_iterating = Some (Inl (FiberError CannotStartWhileIterating), engine_iterating)"
proof -
  have h: "isGeneratorConsuming engine_iterating"
    by (simp add: engine_iterating_def engine_range_def asyncIterator_def new_fibers_def)
  show ?thesis using h start_while_iterating_rejected [OF h] by simp
qed

text \<open>
  C1 as stated fails: on an engine built by \<open>Fibers.for(2, 0, 5, 1, ...)\<close> whose
  async iterator has been obtained, \<open>start()\<close> throws synchronously.
\<close>

theorem start_in_open_session_counterexample:
  "Fibers_for 2 0 5 1 doubling True = Inr engine_range \<and>
   asyncIterator engine_range = (Inr (), engine_iterating) \<and>
   map_option fst (start 1 engine_iterating) = Some (Inl (FiberError CannotStartWhileIterating))"
  by (simp add: Fibers_for_def Fibers_new_def engine_iterating_def engine_range_def
      asyncIterator_def new_fibers_def start_def)

subsection \<open>An engine whose work source yields nothing\<close>

lemma refill_exhausted:
  "fst (generator_next (generator s)) = None \<Longrightarrow>
   refill c s a =
     (None, a, if int (length (runningTaskPool s)) < c
               then s\<lparr>generator := snd (generator_next (generator s))\<rparr> else s)"
  by (subst refill.simps) (auto split: prod.splits option.splits)

lemma generator_next_empty:
  "e \<le> i \<Longrightarrow> fst (generator_next (Sequence i e st f)) = None"
  "fst (generator_next (Iterator [] f')) = None"
  "fst (generator_next Finished) = None"
  by simp_all

text \<open>
  C10. On a newly constructed engine whose work source yields no item (a range with
  \<open>start \<ge> end\<close>, an empty collection), the first advance step returns done, both pools
  stay empty, no factory is called and no promise created, the lifecycle handle is
  resolved, \<open>completed\<close> is true and \<open>failed\<close> is false.
\<close>

theorem empty_source_first_step_done:
  assumes "Fibers_new c g d = Inr s" and "fst (generator_next g) = None"
  shows "\<exists>s'. next (Suc n) sched s = Some (Inr Done, s', sched) \<and>
           runningTaskPool s' = [] \<and> finishedTaskPool s' = [] \<and>
           fibersPromise s' = Some (Fulfilled ()) \<and>
           isCompleted s' \<and> \<not> isFailed s' \<and> invoked s' = [] \<and> nextPid s' = 0"
proof -
  from assms(1) have s: "s = new_fibers c g d" and c: "0 < c"
    by (auto simp: Fibers_new_def split: if_splits)
  have g: "fst (generator_next (generator s)) = None"
    using assms(2) by (simp add: s new_fibers_def)
  show ?thesis
    using c
    by (simp add: next_try_def refill_exhausted [OF g] next_after_def finally_block_def
        resolveIfNotFailedAndCleanup_def cleanup_def promise_resolve_def)
       (simp add: s new_fibers_def)
qed

theorem empty_source_first_step_done_witness:
  "(\<exists>s'. next 1 [] (new_fibers 1 (Sequence 3 3 1 (\<lambda>src. \<lparr>source = src, factory = doubling\<rparr>)) True)
          = Some (Inr Done, s', []) \<and>
        runningTaskPool s' = [] \<and> finishedTaskPool s' = [] \<and>
        fibersPromise s' = Some (Fulfilled ()) \<and>
        isCompleted s' \<and> \<not> isFailed s' \<and> invoked s' = [] \<and> nextPid s' = 0) \<and>
   (\<exists>s'. next 1 [] (new_fibers 1 (Iterator [] (\<lambda>src. \<lparr>source = src, factory = doubling\<rparr>)) False)
          = Some (Inr Done, s', []) \<and>
        runningTaskPool s' = [] \<and> finishedTaskPool s' = [] \<and>
        fibersPromise s' = Some (Fulfilled ()) \<and>
        isCompleted s' \<and> \<not> isFailed s' \<and> invoked s' = [] \<and> nextPid s' = 0)"
proof -
  have a: "Fibers_for 1 3 3 1 doubling True
             = Inr (new_fibers 1 (Sequence 3 3 1 (\<lambda>src. \<lparr>source = src, factory = doubling\<rparr>)) True)"
    by (simp add: Fibers_for_def Fibers_new_def)
  have b: "Fibers_forEach 1 [] doubling False
             = Inr (new_fibers 1 (Iterator [] (\<lambda>src. \<lparr>source = src, factory = doubling\<rparr>)) False)"
    by (simp add: Fibers_forEach_def Fibers_new_def)
  show ?thesis
    using empty_source_first_step_done [OF a [unfolded Fibers_for_def], of 0 "[]"]
      empty_source_first_step_done [OF b [unfolded Fibers_forEach_def], of 0 "[]"]
    by simp
qed

subsection \<open>The cancellable delay\<close>

lemma delay_run_not_started:
  "timeoutId d = NotStarted \<Longrightarrow> signalAborted d = Some True \<Longrightarrow>
   delay_run evs d = d"
proof (induction evs arbitrary: d)
  case Nil then show ?case by simp
next
  case (Cons ev evs)
  then show ?case by (cases ev) (simp_all add: timer_fires_def abort_def)
qed

lemma delay_released_step:
  "delay_released d \<Longrightarrow> abortListener d \<longrightarrow> delayPromise d = None \<Longrightarrow>
   delay_released (timer_fires d) \<and> delay_released (abort d) \<and>
   (abortListener (timer_fires d) \<longrightarrow> delayPromise (timer_fires d) = None) \<and>
   (abortListener (abort d) \<longrightarrow> delayPromise (abort d) = None)"
  by (auto simp: delay_released_def timer_fires_def abort_def delay_cleanup_def timer_armed_def
      promise_resolve_def promise_reject_def Let_def split: timer.splits option.splits bool.splits)

lemma delay_released_run:
  "delay_released d \<Longrightarrow> abortListener d \<longrightarrow> delayPromise d = None \<Longrightarrow>
   delay_released (delay_run evs d)"
proof (induction evs arbitrary: d)
  case Nil then show ?case by simp
next
  case (Cons ev evs)
  then show ?case using delay_released_step [of d] by (cases ev) auto
qed

text \<open>
  C9. \<open>delay(ms, token)\<close> with a token already cancelled rejects with the cancellation
  error and its timer is never started, whatever happens later; a token cancelled during
  the wait rejects the promise with the cancellation error and releases the timer; an
  elapsed timer resolves the promise and releases the timer; and after any sequence of
  events a settled delay holds no armed timer.
\<close>

theorem delay_cancellation:
  "delayPromise (delay ms (Some True)) = Some (Rejected AbortError) \<and>
   timeoutId (delay_run evs (delay ms (Some True))) = NotStarted \<and>
   delayPromise (abort (delay ms (Some False))) = Some (Rejected AbortError) \<and>
   timeoutId (abort (delay ms (Some False))) = Released \<and>
   (ac \<noteq> Some True \<longrightarrow>
      delayPromise (timer_fires (delay ms ac)) = Some (Fulfilled ()) \<and>
      timeoutId (timer_fires (delay ms ac)) = Released) \<and>
   (delayPromise (delay_run evs (delay ms ac)) \<noteq> None \<longrightarrow>
      \<not> timer_armed (delay_run evs (delay ms ac)))"
proof -
  have a: "delay_run evs (delay ms (Some True)) = delay ms (Some True)"
    by (rule delay_run_not_started) (simp_all add: delay_def)
  have b: "delay_released (delay_run evs (delay ms ac))"
    by (rule delay_released_run)
       (simp_all add: delay_released_def delay_def timer_armed_def promise_reject_def)
  show ?thesis
    using b unfolding a
    by (auto simp: delay_def abort_def timer_fires_def delay_cleanup_def promise_reject_def
        promise_resolve_def createAbortError_def delay_released_def)
qed

theorem delay_cancellation_witness:
  "delayPromise (timer_fires (delay 1000 None)) = Some (Fulfilled ()) \<and>
   timeoutId (timer_fires (delay 1000 None)) = Released \<and>
   delayPromise (delay_run [Abort, TimerFires] (delay 1000 (Some False))) = Some (Rejected AbortError) \<and>
   \<not> timer_armed (delay_run [Abort, TimerFires] (delay 1000 (Some False)))"
proof -
  have p: "delayPromise (delay_run [Abort, TimerFires] (delay 1000 (Some False))) \<noteq> None"
    by (simp add: delay_def abort_def timer_fires_def delay_cleanup_def promise_reject_def)
  have q: "delayPromise (delay_run [Abort, TimerFires] (delay 1000 (Some False))) = Some (Rejected AbortError)"
    by (simp add: delay_def abort_def timer_fires_def delay_cleanup_def promise_reject_def createAbortError_def)
  show ?thesis
    using p q delay_cancellation [of 1000 "[Abort, TimerFires]" None]
      delay_cancellation [of 1000 "[Abort, TimerFires]" "Some False"]
    by simp
qed

subsection \<open>Lifetime properties\<close>

lemma evolves_refl: "evolves s s"
  by (auto simp: evolves_def)

lemma evolves_trans:
  assumes "evolves s t" and "evolves t u"
  shows "evolves s u"
proof -
  from assms have c: "b_concurrency t = b_concurrency s" "b_concurrency u = b_concurrency s"
    and r: "callbackResolveThrows u = callbackResolveThrows s"
      "callbackRejectThrows u = callbackRejectThrows s"
    by (simp_all add: evolves_def)
  from assms have p: "\<forall>x. fibersPromise s = Some x \<longrightarrow> fibersPromise u = Some x"
    by (simp add: evolves_def)
  from assms have m: "isCompleted s \<longrightarrow> isCompleted u"
    and mt: "isCompleted t \<longrightarrow> isCompleted u"
    by (simp_all add: evolves_def)
  from assms have
    "int (length (runningTaskPool t)) \<le> max (int (length (runningTaskPool s))) (b_concurrency s)"
    "int (length (runningTaskPool u)) \<le> max (int (length (runningTaskPool t))) (b_concurrency t)"
    by (simp_all add: evolves_def)
  with c have l:
    "int (length (runningTaskPool u)) \<le> max (int (length (runningTaskPool s))) (b_concurrency s)"
    by linarith
  from assms have f:
    "generator s = Finished \<and> runningTaskPool s = [] \<longrightarrow>
       generator u = Finished \<and> runningTaskPool u = [] \<and>
       invoked u = invoked s \<and> nextPid u = nextPid s"
    unfolding evolves_def by metis
  from assms mt have q:
    "\<not> isCompleted u \<longrightarrow>
       isResolvedOrRejected u = isResolvedOrRejected s \<and>
       fibersPromise u = fibersPromise s \<and> isFailed u = isFailed s"
    unfolding evolves_def by metis
  from p m c l r f q show ?thesis
    unfolding evolves_def by blast
qed

lemma try_frame_fields:
  assumes "try_frame s s'"
  shows "fibersPromise s' = fibersPromise s" "isResolvedOrRejected s' = isResolvedOrRejected s"
    "isCompleted s' = isCompleted s" "isFailed s' = isFailed s"
    "isGeneratorConsuming s' = isGeneratorConsuming s"
    "allowBackgroundJobRunning s' = allowBackgroundJobRunning s"
    "activeBackgroundJob s' = activeBackgroundJob s"
    "b_concurrency s' = b_concurrency s" "b_errorHandler s' = b_errorHandler s"
    "callbackResolveThrows s' = callbackResolveThrows s"
    "callbackRejectThrows s' = callbackRejectThrows s"
    "generatorDisposable s' = generatorDisposable s"
    "backgroundJobAt s' = backgroundJobAt s"
  using assms unfolding try_frame_def by (cases s; cases s'; simp)+

lemma settle_changes:
  "try_frame s (settle p s) \<and> runningTaskPool (settle p s) = runningTaskPool s \<and>
   generator (settle p s) = generator s \<and> invoked (settle p s) = invoked s \<and>
   nextPid (settle p s) = nextPid s"
  by (simp add: settle_def try_frame_def split: option.splits)

lemma find_Some_member: "find P xs = Some w \<Longrightarrow> w \<in> set xs"
  by (auto simp: find_Some_iff)

lemma race_changes:
  "race sched s = Some (w, s', sched') \<Longrightarrow>
   try_frame s s' \<and> runningTaskPool s' = runningTaskPool s \<and>
   generator s' = generator s \<and> invoked s' = invoked s \<and> nextPid s' = nextPid s \<and>
   w \<in> set (runningTaskPool s')"
proof (induction sched arbitrary: s)
  case Nil
  then show ?case
    by (auto simp: try_frame_refl split: option.splits dest: find_Some_member)
next
  case (Cons p sched)
  show ?case
  proof (cases "find (settled s) (runningTaskPool s)")
    case (Some a)
    with Cons.prems show ?thesis
      by (auto simp: try_frame_refl dest: find_Some_member)
  next
    case None
    with Cons.prems have "race sched (settle p s) = Some (w, s', sched')" by simp
    from Cons.IH [OF this] settle_changes [of s p] show ?thesis
      by (auto intro: try_frame_trans)
  qed
qed

lemma refill_finished:
  assumes "generator s = Finished" and "refill c s a = (r, a', s')"
  shows "generator s' = Finished \<and> runningTaskPool s' = runningTaskPool s \<and>
         invoked s' = invoked s \<and> nextPid s' = nextPid s"
proof -
  have "fst (generator_next (generator s)) = None" using assms(1) by simp
  from refill_exhausted [OF this, of c a] assms show ?thesis
    by (auto split: if_splits)
qed

lemma next_try_changes:
  assumes "next_try sched s = Some (outcome, a, s1, sched1)"
  shows "try_frame s s1"
    and "int (length (runningTaskPool s1)) \<le> max (int (length (runningTaskPool s))) (b_concurrency s)"
    and "generator s = Finished \<and> runningTaskPool s = [] \<longrightarrow>
         generator s1 = Finished \<and> runningTaskPool s1 = [] \<and>
         invoked s1 = invoked s \<and> nextPid s1 = nextPid s"
proof -
  obtain r a0 s0 where rf: "refill (b_concurrency s) s None = (r, a0, s0)"
    by (cases "refill (b_concurrency s) s None")
  note rc = refill_changes [OF rf] and rfin = refill_finished [OF _ rf]
  have "try_frame s s1 \<and>
        int (length (runningTaskPool s1)) \<le> max (int (length (runningTaskPool s))) (b_concurrency s) \<and>
        (generator s = Finished \<and> runningTaskPool s = [] \<longrightarrow>
         generator s1 = Finished \<and> runningTaskPool s1 = [] \<and>
         invoked s1 = invoked s \<and> nextPid s1 = nextPid s)"
  proof (cases r)
    case (Some e)
    with assms rf rc rfin show ?thesis by (auto simp: next_try_def)
  next
    case None
    show ?thesis
    proof (cases "runningTaskPool s0 = []")
      case True
      with assms rf rc rfin None show ?thesis by (auto simp: next_try_def)
    next
      case False
      with assms rf None obtain w sched2 where
        rw: "race sched s0 = Some (w, s1, sched2)"
        by (auto simp: next_try_def split: option.splits settlement.splits list.splits)
      from race_changes [OF rw] rc rfin show ?thesis
        by (auto intro: try_frame_trans)
    qed
  qed
  then show "try_frame s s1"
    and "int (length (runningTaskPool s1)) \<le> max (int (length (runningTaskPool s))) (b_concurrency s)"
    and "generator s = Finished \<and> runningTaskPool s = [] \<longrightarrow>
         generator s1 = Finished \<and> runningTaskPool s1 = [] \<and>
         invoked s1 = invoked s \<and> nextPid s1 = nextPid s"
    by simp_all
qed

lemma length_set_delete: "length (set_delete x xs) \<le> length xs"
  by (simp add: set_delete_def)

lemma cleanup_evolves: "evolves s (cleanup s)"
  by (auto simp: evolves_def cleanup_def generator_dispose_def)

lemma resolve_evolves: "evolves s (snd (resolveIfNotFailedAndCleanup s))"
  by (auto simp: evolves_def resolveIfNotFailedAndCleanup_def cleanup_def promise_resolve_def
      generator_dispose_def)

lemma raise_evolves: "evolves s (snd (raiseErrorAndCleanup e s))"
  by (auto simp: evolves_def raiseErrorAndCleanup_def cleanup_def promise_reject_def Let_def
      generator_dispose_def)

lemma catch_evolves: "catch_block e s = (lf, rethrown, s') \<Longrightarrow> evolves s s'"
  using raise_evolves [of s e]
  by (auto simp: catch_block_def evolves_refl split: directive.splits option.splits)

lemma finally_evolves: "evolves s (snd (finally_block a lf s))"
proof -
  let ?s1 = "case a of None \<Rightarrow> s
     | Some t \<Rightarrow> s\<lparr> runningTaskPool := set_delete t (runningTaskPool s),
                    finishedTaskPool := set_delete t (finishedTaskPool s) \<rparr>"
  have a: "evolves s ?s1"
    using length_set_delete [of _ "runningTaskPool s"]
    by (auto simp: evolves_def le_max_iff_disj set_delete_def split: option.splits)
  have "evolves ?s1 (snd (finally_block a lf s))"
    using resolve_evolves [of ?s1] by (cases lf) (simp_all add: finally_block_def Let_def evolves_refl)
  with a show ?thesis by (rule evolves_trans)
qed

lemma next_after_evolves: "evolves s (snd (next_after outcome a s))"
proof (cases outcome)
  case (TryReturn v)
  then show ?thesis using finally_evolves [of s a False]
    by (auto simp: next_after_def split: prod.splits option.splits)
next
  case (TryThrow e)
  obtain lf rethrown s1 where c: "catch_block e s = (lf, rethrown, s1)"
    by (cases "catch_block e s")
  from catch_evolves [OF c] finally_evolves [of s1 a lf]
  have "evolves s (snd (finally_block a lf s1))" by (rule evolves_trans)
  with TryThrow c show ?thesis
    by (auto simp: next_after_def split: prod.splits option.splits)
next
  case TryLoopFinished
  then show ?thesis using finally_evolves [of s a True]
    by (auto simp: next_after_def split: prod.splits option.splits)
qed

lemma next_try_evolves:
  "next_try sched s = Some (outcome, a, s1, sched1) \<Longrightarrow> evolves s s1"
  using next_try_changes [of sched s outcome a s1 sched1] try_frame_fields [of s s1]
  by (auto simp: evolves_def)

lemma next_evolves: "next n sched s = Some (r, s', sched') \<Longrightarrow> evolves s s'"
proof (induction n arbitrary: sched s)
  case 0
  then show ?case by simp
next
  case (Suc n)
  from Suc.prems obtain outcome a s1 sched1 where
    t: "next_try sched s = Some (outcome, a, s1, sched1)"
    by (auto split: option.splits)
  obtain c s2 where na: "next_after outcome a s1 = (c, s2)"
    by (cases "next_after outcome a s1")
  have e12: "evolves s s2"
    using next_try_evolves [OF t] next_after_evolves [of s1 outcome a] na
    by (auto intro: evolves_trans)
  show ?case
  proof (cases c)
    case (Return x)
    with Suc.prems t na e12 show ?thesis by simp
  next
    case (Throw x)
    with Suc.prems t na e12 show ?thesis by simp
  next
    case Again
    with Suc.prems t na have "next n sched1 s2 = Some (r, s', sched')" by simp
    from Suc.IH [OF this] e12 show ?thesis by (auto intro: evolves_trans)
  qed
qed

lemma background_finally_evolves: "evolves s (background_finally s)"
  by (auto simp: evolves_def background_finally_def)

lemma runInBackground_evolves:
  "runInBackground n sched s = Some (r, s', sched') \<Longrightarrow> evolves s s'"
proof (induction n arbitrary: sched s)
  case 0
  then show ?case by simp
next
  case (Suc n)
  show ?case
  proof (cases "background_continues s")
    case False
    with Suc.prems show ?thesis by (auto simp: background_finally_evolves)
  next
    case True
    with Suc.prems obtain x s1 sched1 where nx: "next n sched s = Some (x, s1, sched1)"
      by (auto split: option.splits)
    note e1 = next_evolves [OF nx]
    show ?thesis
    proof (cases x)
      case (Inl e)
      with Suc.prems True nx have "s' = background_finally s1" by simp
      with e1 background_finally_evolves [of s1] show ?thesis by (auto intro: evolves_trans)
    next
      case (Inr ir)
      show ?thesis
      proof (cases ir)
        case Done
        with Suc.prems True nx Inr have "s' = background_finally s1" by simp
        with e1 background_finally_evolves [of s1] show ?thesis by (auto intro: evolves_trans)
      next
        case (Value v)
        with Suc.prems True nx Inr have "runInBackground n sched1 s1 = Some (r, s', sched')"
          by simp
        from Suc.IH [OF this] e1 show ?thesis by (auto intro: evolves_trans)
      qed
    qed
  qed
qed

subsection \<open>The background job\<close>

text \<open>
  The synchronous part of \<open>next()\<close> followed by the rest of the call is the call itself
  (\<open>next_begin_resume\<close> below), and both parts keep what \<open>evolves\<close> states.
\<close>

lemma evolves_fields:
  "evolves (s\<lparr>allowBackgroundJobRunning := a\<rparr>) t \<Longrightarrow>
   evolves s (t\<lparr>activeBackgroundJob := j, backgroundJobAt := k\<rparr>)"
  "evolves (s\<lparr>backgroundJobAt := k\<rparr>) t \<Longrightarrow> evolves s t"
  by (simp_all add: evolves_def)

lemma race_over_changes:
  "race_over pool sched s = Some (w, s', sched') \<Longrightarrow>
   try_frame s s' \<and> runningTaskPool s' = runningTaskPool s \<and>
   generator s' = generator s \<and> invoked s' = invoked s \<and> nextPid s' = nextPid s"
proof (induction sched arbitrary: s)
  case Nil
  then show ?case by (auto simp: try_frame_refl split: option.splits)
next
  case (Cons p sched)
  show ?case
  proof (cases "find (settled s) pool")
    case (Some a)
    with Cons.prems show ?thesis by (auto simp: try_frame_refl)
  next
    case None
    with Cons.prems have "race_over pool sched (settle p s) = Some (w, s', sched')" by simp
    from Cons.IH [OF this] settle_changes [of s p] show ?thesis
      by (auto intro: try_frame_trans)
  qed
qed

lemma race_over_evolves:
  "race_over pool sched s = Some (w, s', sched') \<Longrightarrow> evolves s s'"
  using race_over_changes [of pool sched s w s' sched'] try_frame_fields [of s s']
  by (auto simp: evolves_def)

lemma race_is_race_over: "race sched s = race_over (runningTaskPool s) sched s"
proof (induction sched arbitrary: s)
  case Nil
  show ?case by simp
next
  case (Cons p sched)
  from Cons [of "settle p s"] settle_changes [of s p] show ?case
    by (simp split: option.splits)
qed

lemma refill_evolves: "refill c s a = (r, a', s') \<Longrightarrow> c = b_concurrency s \<Longrightarrow> evolves s s'"
  using refill_changes [of c s a r a' s'] try_frame_fields [of s s']
    refill_finished [of s c a r a' s']
  by (auto simp: evolves_def)

lemma next_begin_evolves: "next_begin n s = Some (k, s') \<Longrightarrow> evolves s s'"
proof (induction n arbitrary: s)
  case 0
  then show ?case by simp
next
  case (Suc n)
  obtain r a s1 where rf: "refill (b_concurrency s) s None = (r, a, s1)"
    by (cases "refill (b_concurrency s) s None")
  note e1 = refill_evolves [OF rf refl]
  show ?case
  proof (cases "r = None \<and> runningTaskPool s1 \<noteq> []")
    case True
    with Suc.prems rf e1 show ?thesis by auto
  next
    case False
    let ?outcome = "case r of Some e \<Rightarrow> TryThrow e | None \<Rightarrow> TryLoopFinished"
    obtain c s2 where na: "next_after ?outcome a s1 = (c, s2)"
      by (cases "next_after ?outcome a s1")
    have e2: "evolves s s2"
      using e1 next_after_evolves [of s1 ?outcome a] na by (auto intro: evolves_trans)
    show ?thesis
    proof (cases c)
      case (Return x)
      with Suc.prems rf False na e2 show ?thesis
        by (cases r) auto
    next
      case (Throw x)
      with Suc.prems rf False na e2 show ?thesis
        by (cases r) auto
    next
      case Again
      with Suc.prems rf False na have "next_begin n s2 = Some (k, s')"
        by (cases r) auto
      from Suc.IH [OF this] e2 show ?thesis by (rule evolves_trans [rotated])
    qed
  qed
qed

lemma next_resume_evolves:
  assumes "next_resume n sched k s = Some (r, s', sched')"
  shows "evolves s s'"
proof (cases k)
  case (AwaitEnd x)
  with assms show ?thesis by (simp add: next_resume_def evolves_refl)
next
  case (AwaitRace a pool)
  with assms obtain w s2 sched2 outcome a' where
    ro: "race_over pool sched s = Some (w, s2, sched2)"
    and ar: "after_race w a s2 = Some (outcome, a')"
    by (auto simp: next_resume_def split: option.splits)
  obtain c s3 where na: "next_after outcome a' s2 = (c, s3)"
    by (cases "next_after outcome a' s2")
  have e: "evolves s s3"
    using race_over_evolves [OF ro] next_after_evolves [of s2 outcome a'] na
    by (auto intro: evolves_trans)
  show ?thesis
  proof (cases c)
    case (Return x)
    with assms AwaitRace ro ar na e show ?thesis by (simp add: next_resume_def)
  next
    case (Throw x)
    with assms AwaitRace ro ar na e show ?thesis by (simp add: next_resume_def)
  next
    case Again
    with assms AwaitRace ro ar na have "next n sched2 s3 = Some (r, s', sched')"
      by (simp add: next_resume_def)
    from next_evolves [OF this] e show ?thesis by (rule evolves_trans [rotated])
  qed
qed

lemma start_evolves: "start n s = Some (r, s') \<Longrightarrow> evolves s s'"
  by (auto simp: start_def evolves_refl split: if_splits option.splits
      dest!: next_begin_evolves intro: evolves_fields(1))

lemma resumeInBackground_evolves:
  assumes "resumeInBackground n sched s = Some (r, s', sched')"
  shows "evolves s s'"
proof (cases "backgroundJobAt s")
  case None
  with assms show ?thesis by (simp add: resumeInBackground_def evolves_refl)
next
  case (Some k)
  with assms obtain x s1 sched1 where
    nr: "next_resume n sched k (s\<lparr>backgroundJobAt := None\<rparr>) = Some (x, s1, sched1)"
    by (auto simp: resumeInBackground_def split: option.splits)
  have e1: "evolves s s1"
    using next_resume_evolves [OF nr] by (rule evolves_fields(2))
  show ?thesis
  proof (cases x)
    case (Inl e)
    with assms Some nr have "s' = background_finally s1" by (simp add: resumeInBackground_def)
    with e1 background_finally_evolves [of s1] show ?thesis by (auto intro: evolves_trans)
  next
    case (Inr ir)
    show ?thesis
    proof (cases ir)
      case Done
      with assms Some nr Inr have "s' = background_finally s1"
        by (simp add: resumeInBackground_def)
      with e1 background_finally_evolves [of s1] show ?thesis by (auto intro: evolves_trans)
    next
      case (Value v)
      with assms Some nr Inr have "runInBackground n sched1 s1 = Some (r, s', sched')"
        by (simp add: resumeInBackground_def)
      from runInBackground_evolves [OF this] e1 show ?thesis by (rule evolves_trans [rotated])
    qed
  qed
qed

lemma next_resume_after_refill:
  assumes "refill (b_concurrency s) s None = (None, a, s1)" and "runningTaskPool s1 \<noteq> []"
  shows "next_resume n sched (AwaitRace a (runningTaskPool s1)) s1 = next (Suc n) sched s"
  using assms
  by (auto simp: next_resume_def next_try_def race_is_race_over [symmetric] after_race_def
      split: option.splits settlement.splits list.splits prod.splits completion.splits)

lemma next_begin_resume:
  "next_begin m s = Some (k, s1) \<Longrightarrow>
   \<exists>j. 0 < j \<and> j \<le> m \<and> (\<forall>n sched. next_resume n sched k s1 = next (n + j) sched s)"
proof (induction m arbitrary: s)
  case 0
  then show ?case by simp
next
  case (Suc m)
  obtain r a s0 where rf: "refill (b_concurrency s) s None = (r, a, s0)"
    by (cases "refill (b_concurrency s) s None")
  show ?case
  proof (cases "r = None \<and> runningTaskPool s0 \<noteq> []")
    case True
    with Suc.prems rf have k: "k = AwaitRace a (runningTaskPool s0)" and s1: "s1 = s0" by auto
    from True rf have "\<forall>n sched. next_resume n sched k s1 = next (n + 1) sched s"
      unfolding k s1 using next_resume_after_refill [of s a s0] by simp
    then show ?thesis by (intro exI [of _ 1]) simp
  next
    case False
    let ?outcome = "case r of Some e \<Rightarrow> TryThrow e | None \<Rightarrow> TryLoopFinished"
    obtain c s2 where na: "next_after ?outcome a s0 = (c, s2)"
      by (cases "next_after ?outcome a s0")
    have t: "\<And>sched. next_try sched s = Some (?outcome, a, s0, sched)"
      using rf False by (cases r) (auto simp: next_try_def)
    show ?thesis
    proof (cases c)
      case (Return x)
      with Suc.prems rf False na have "k = AwaitEnd (Inr x)" "s1 = s2" by (cases r; auto)+
      with t na Return have "\<forall>n sched. next_resume n sched k s1 = next (n + 1) sched s"
        by (simp add: next_resume_def)
      then show ?thesis by (intro exI [of _ 1]) simp
    next
      case (Throw x)
      with Suc.prems rf False na have "k = AwaitEnd (Inl x)" "s1 = s2" by (cases r; auto)+
      with t na Throw have "\<forall>n sched. next_resume n sched k s1 = next (n + 1) sched s"
        by (simp add: next_resume_def)
      then show ?thesis by (intro exI [of _ 1]) simp
    next
      case Again
      with Suc.prems rf False na have "next_begin m s2 = Some (k, s1)" by (cases r) auto
      from Suc.IH [OF this] obtain j where j: "0 < j" "j \<le> m"
        and eq: "\<forall>n sched. next_resume n sched k s1 = next (n + j) sched s2" by blast
      from t na Again have "\<And>n sched. next (Suc (n + j)) sched s = next (n + j) sched s2"
        by simp
      with eq have "\<forall>n sched. next_resume n sched k s1 = next (n + Suc j) sched s" by simp
      with j show ?thesis by (intro exI [of _ "Suc j"]) simp
    qed
  qed
qed

subsection \<open>Operations\<close>

lemma perform_evolves:
  assumes "perform op s = Some s'" and "\<And>v. op \<noteq> OpSetConcurrency v"
  shows "evolves s s'"
proof (cases op)
  case (OpNext n sched)
  with assms(1) obtain r sched' where "next n sched s = Some (r, s', sched')" by auto
  then show ?thesis by (rule next_evolves)
next
  case (OpRunInBackground n sched)
  with assms(1) obtain r sched' where "resumeInBackground n sched s = Some (r, s', sched')"
    by auto
  then show ?thesis by (rule resumeInBackground_evolves)
next
  case (OpSetConcurrency v)
  with assms(2) [of v] show ?thesis by simp
next
  case (OpStart n)
  with assms(1) obtain r where "start n s = Some (r, s')" by auto
  then show ?thesis by (rule start_evolves)
next
  case OpStop
  with assms(1) show ?thesis by (auto simp: stop_def evolves_def Let_def split: if_splits)
next
  case OpAsyncIterator
  with assms(1) show ?thesis by (auto simp: asyncIterator_def evolves_def split: if_splits)
next
  case OpReturn
  with assms(1) resolve_evolves [of s] show ?thesis
    by (auto simp: return_def split: prod.splits option.splits)
next
  case (OpThrow e)
  with assms(1) raise_evolves [of s e] show ?thesis
    by (auto simp: throw_def split: prod.splits option.splits)
next
  case OpAsyncDispose
  with assms(1) cleanup_evolves [of s] show ?thesis by (auto simp: asyncDispose_def)
next
  case (OpSetErrorHandler h)
  with assms(1) show ?thesis by (auto simp: setErrorHandler_def evolves_def)
next
  case (OpSettle p)
  with assms(1) settle_changes [of s p] try_frame_fields [of s "settle p s"] show ?thesis
    by (auto simp: evolves_def)
qed

lemma perform_set_concurrency:
  "perform (OpSetConcurrency v) s = Some s' \<Longrightarrow>
   s' = (if v \<le> 0 then s else s\<lparr>b_concurrency := v\<rparr>)"
  by (auto simp: set_concurrency_def)

subsection \<open>The lifecycle handle settles at most once\<close>

text \<open>
  C3. Once the lifecycle handle (\<open>fibersPromise\<close>) is settled with outcome \<open>x\<close>, it keeps
  that outcome through every sequence of operations that returns: further advance steps,
  \<open>return()\<close>, \<open>throw()\<close>, disposal, \<open>start()\<close>/\<open>stop()\<close>, the background job and the host's
  settlements. Every later settlement attempt is a no-op.
\<close>

theorem lifecycle_settled_once:
  "fibersPromise s = Some x \<Longrightarrow> run ops s = Some s' \<Longrightarrow> fibersPromise s' = Some x"
proof (induction ops arbitrary: s)
  case Nil
  then show ?case by simp
next
  case (Cons op ops)
  from Cons.prems(2) obtain s1 where p: "perform op s = Some s1" and r: "run ops s1 = Some s'"
    by (auto split: option.splits)
  have "fibersPromise s1 = Some x"
  proof (cases "\<exists>v. op = OpSetConcurrency v")
    case True
    with p Cons.prems(1) show ?thesis
      by (auto dest!: perform_set_concurrency split: if_splits)
  next
    case False
    with p have "evolves s s1" by (intro perform_evolves) auto
    with Cons.prems(1) show ?thesis by (simp add: evolves_def)
  qed
  from Cons.IH [OF this r] show ?case .
qed

subsection \<open>The bound on the running pool\<close>

text \<open>
  C2 (as amended). If \<open>size(RunningPool) \<le> concurrency\<close> holds, it holds again after
  every operation, provided a call of the concurrency setter does not set a level below
  the current size of the pool; it also holds right after the refill loop inside an
  advance step. The setter never changes the pool.
\<close>

theorem pool_bound_preserved:
  assumes "pool_bounded s"
  shows "(\<forall>s'. perform op s = Some s' \<longrightarrow>
             (\<forall>v. op = OpSetConcurrency v \<longrightarrow> int (length (runningTaskPool s)) \<le> v) \<longrightarrow>
             pool_bounded s')
       \<and> (\<forall>r a' s1. refill (b_concurrency s) s a = (r, a', s1) \<longrightarrow> pool_bounded s1)
       \<and> (\<forall>s'. perform (OpSetConcurrency v) s = Some s' \<longrightarrow>
             runningTaskPool s' = runningTaskPool s)"
proof (intro conjI allI impI)
  fix s'
  assume p: "perform op s = Some s'"
    and v: "\<forall>v. op = OpSetConcurrency v \<longrightarrow> int (length (runningTaskPool s)) \<le> v"
  show "pool_bounded s'"
  proof (cases "\<exists>v. op = OpSetConcurrency v")
    case True
    with p v assms show ?thesis
      by (auto simp: pool_bounded_def dest!: perform_set_concurrency split: if_splits)
  next
    case False
    with p have "evolves s s'" by (intro perform_evolves) auto
    with assms show ?thesis by (auto simp: evolves_def pool_bounded_def)
  qed
next
  fix r a' s1
  assume "refill (b_concurrency s) s a = (r, a', s1)"
  from refill_changes [OF this] try_frame_fields(8) [of s s1] assms
  show "pool_bounded s1" by (auto simp: pool_bounded_def)
next
  fix s'
  assume "perform (OpSetConcurrency v) s = Some s'"
  from perform_set_concurrency [OF this] show "runningTaskPool s' = runningTaskPool s"
    by (simp split: if_splits)
qed

subsection \<open>Completed engines\<close>

lemma wellformed_new: "wellformed (new_fibers c g d)"
  by (simp add: wellformed_def new_fibers_def)

lemma wellformed_perform:
  assumes "wellformed s" and "perform op s = Some s'"
  shows "wellformed s'"
proof (cases "\<exists>v. op = OpSetConcurrency v")
  case True
  with assms show ?thesis
    by (auto simp: wellformed_def dest!: perform_set_concurrency split: if_splits)
next
  case False
  with assms(2) have "evolves s s'" by (intro perform_evolves) auto
  with assms(1) show ?thesis
    unfolding evolves_def wellformed_def by metis
qed

lemma wellformed_run: "wellformed s \<Longrightarrow> run ops s = Some s' \<Longrightarrow> wellformed s'"
proof (induction ops arbitrary: s)
  case Nil
  then show ?case by simp
next
  case (Cons op ops)
  from Cons.prems(2) obtain s1 where p: "perform op s = Some s1" and r: "run ops s1 = Some s'"
    by (auto split: option.splits)
  from Cons.IH [OF wellformed_perform [OF Cons.prems(1) p] r] show ?case .
qed









text \<open>
  On an engine reached from the constructor the promise's own functions settle the
  lifecycle handle, so \<open>_raiseErrorAndCleanup\<close> never reaches its \<open>catch (other)\<close> branch
  and \<open>throw()\<close> passes on the error it was given.
\<close>

lemma settling_never_throws:
  assumes "run ops (new_fibers c g d) = Some s"
  shows "fst (raiseErrorAndCleanup e s) = None" and "fst (throw e s) = Inl e"
    and "fst (resolveIfNotFailedAndCleanup s) = None"
  using wellformed_run [OF wellformed_new assms]
  by (simp_all add: wellformed_def raiseErrorAndCleanup_def throw_def
      resolveIfNotFailedAndCleanup_def Let_def split: prod.splits)

subsection \<open>Concrete runs\<close>

lemmas eval_defs =
  new_fibers_def next_try_def next_after_def finally_block_def catch_block_def
  resolveIfNotFailedAndCleanup_def raiseErrorAndCleanup_def cleanup_def generator_dispose_def
  promise_resolve_def promise_reject_def settle_def settled_def set_add_def set_delete_def
  setErrorHandler_def set_concurrency_def start_def stop_def asyncIterator_def return_def
  throw_def asyncDispose_def doubling_def failing_at_def background_continues_def
  background_finally_def after_race_def next_resume_def resumeInBackground_def
  refill.simps Let_def

text \<open>
  C2 as stated fails: \<open>Fibers.for(3, 0, 10, 1, ...)\<close>, one advance step (two units stay
  in flight), then \<open>concurrency = 1\<close>: the pool holds 2 units at level 1.
\<close>

theorem lowering_concurrency_counterexample:
  "Fibers_for 3 0 10 1 doubling True = Inr engine_three \<and>
   map_option pool_size_and_level (run [OpNext 1 [0]] engine_three) = Some (2, 3) \<and>
   map_option pool_size_and_level (run [OpNext 1 [0], OpSetConcurrency 1] engine_three) = Some (2, 1) \<and>
   map_option pool_bounded (run [OpNext 1 [0], OpSetConcurrency 1] engine_three) = Some False"
  by (simp add: Fibers_for_def Fibers_new_def engine_three_def pool_size_and_level_def
      pool_bounded_def eval_defs)

text \<open>
  The bound is kept by an advance step, by \<open>start()\<close> and by raising the level on that
  engine.
\<close>

theorem pool_bound_preserved_witness:
  "pool_bounded engine_three \<and>
   map_option pool_bounded (perform (OpNext 1 [0]) engine_three) = Some True \<and>
   map_option pool_bounded (perform (OpStart 1) engine_three) = Some True \<and>
   map_option pool_bounded (perform (OpSetConcurrency 5) engine_three) = Some True"
proof -
  have h: "pool_bounded engine_three"
    by (simp add: pool_bounded_def engine_three_def new_fibers_def)
  obtain s1 where p1: "perform (OpNext 1 [0]) engine_three = Some s1"
    by (simp add: engine_three_def eval_defs)
  obtain s2 where p2: "perform (OpSetConcurrency 5) engine_three = Some s2"
    by simp
  obtain s3 where p3: "perform (OpStart 1) engine_three = Some s3"
    by (simp add: engine_three_def eval_defs)
  have l: "int (length (runningTaskPool engine_three)) \<le> 5"
    by (simp add: engine_three_def new_fibers_def)
  from pool_bound_preserved [OF h, of "OpNext 1 [0]"] p1 have b1: "pool_bounded s1" by simp
  from pool_bound_preserved [OF h, of "OpSetConcurrency 5"] p2 l have b2: "pool_bounded s2"
    by simp
  from pool_bound_preserved [OF h, of "OpStart 1"] p3 have b3: "pool_bounded s3" by simp
  show ?thesis unfolding p1 p2 p3 using h b1 b2 b3 by simp
qed

text \<open>
  An engine resolved by \<open>return()\<close> stays resolved through \<open>throw()\<close>, \<open>return()\<close>, an
  advance step, \<open>start()\<close> and disposal.
\<close>

theorem lifecycle_settled_once_witness:
  "fibersPromise engine_returned = Some (Fulfilled ()) \<and>
   map_option fibersPromise
     (run [OpThrow (Failure 1), OpReturn, OpNext 1 [], OpStart 1, OpAsyncDispose] engine_returned)
     = Some (Some (Fulfilled ()))"
proof -
  have h: "fibersPromise engine_returned = Some (Fulfilled ())"
    by (simp add: engine_returned_def engine_range_def eval_defs)
  obtain s' where r:
    "run [OpThrow (Failure 1), OpReturn, OpNext 1 [], OpStart 1, OpAsyncDispose] engine_returned
       = Some s'"
    by (simp add: engine_returned_def engine_range_def eval_defs)
  from lifecycle_settled_once [OF h r] h r show ?thesis by simp
qed



subsection \<open>The error-handler policy\<close>




subsection \<open>Bookkeeping of the errored unit\<close>

lemma generator_next_exhausted: "fst (generator_next g) = None \<Longrightarrow> snd (generator_next g) = Finished"
  by (cases g rule: generator_next.cases) (auto split: if_splits)

lemma race_settled: "find (settled s) (runningTaskPool s) = Some t \<Longrightarrow> race sched s = Some (t, s, sched)"
  by (cases sched) simp_all

text \<open>
  With the source exhausted and a handler answering \<open>'skip'\<close>, a rejected unit that wins the
  race is never removed from the running pool: each pass leaves \<open>activeTask\<close> undefined,
  and \<open>next()\<close> re-enters itself for ever.
\<close>

lemma skip_never_returns:
  assumes "fst (generator_next (generator s)) = None"
    and "find (settled s) (runningTaskPool s) = Some t" and "fate t = Rejected e"
    and "b_errorHandler s = Some h" and "h e ReasonNext = Skip"
  shows "next n sched s = None"
  using assms
proof (induction n arbitrary: s)
  case 0
  then show ?case by simp
next
  case (Suc n)
  let ?s1 = "if int (length (runningTaskPool s)) < b_concurrency s
             then s\<lparr>generator := snd (generator_next (generator s))\<rparr> else s"
  have ne: "runningTaskPool s \<noteq> []" using Suc.prems(2) by auto
  have f1: "find (settled ?s1) (runningTaskPool ?s1) = Some t"
    using Suc.prems(2) by (auto simp: settled_def [abs_def])
  have t: "next_try sched s = Some (TryThrow e, None, ?s1, sched)"
    using ne race_settled [OF f1, of sched] Suc.prems(3)
    by (simp add: next_try_def refill_exhausted [OF Suc.prems(1)])
  have a: "next_after (TryThrow e) None ?s1 = (Again, ?s1)"
    using Suc.prems(4,5) by (simp add: next_after_def catch_block_def finally_block_def)
  have g1: "fst (generator_next (generator ?s1)) = None"
    using Suc.prems(1) generator_next_exhausted [OF Suc.prems(1)] by simp
  have h1: "b_errorHandler ?s1 = Some h" using Suc.prems(4) by simp
  have "next n sched ?s1 = None"
    by (rule Suc.IH [OF g1 f1 Suc.prems(3) h1 Suc.prems(5)])
  with t a show ?case by simp
qed

text \<open>
  C6 fails on the code. \<open>Fibers.forEach(2, [10, 20], f)\<close> with a \<open>'skip'\<close> handler, where the
  promise of item 10 (identity 0) rejects first: the \<open>try\<close> block throws its error while
  \<open>activeTask\<close> is the promise of item 20 (identity 1), the last one created. After
  \<open>catch\<close> and \<open>finally\<close> the errored unit 0 is still in both pools, the unit 1 still in
  flight has been removed, and the step re-enters \<open>next()\<close>.
\<close>

theorem errored_unit_left_in_pools:
  "Fibers_forEach 2 [10, 20] (failing_at 10) True
     = Inr (new_fibers 2 (Iterator [10, 20] (\<lambda>src. \<lparr>source = src, factory = failing_at 10\<rparr>)) True) \<and>
   advance_trace [0] engine_skip = Some (TryThrow (Failure 0), Some 1, Again, [0], [0])"
  by (simp add: Fibers_forEach_def Fibers_new_def advance_trace_def engine_skip_def eval_defs)

text \<open>On that input the first call of \<open>next()\<close> never returns, whatever the fuel.\<close>

lemma engine_skip_never_returns: "next n [0] engine_skip = None"
proof (cases n)
  case 0
  then show ?thesis by simp
next
  case (Suc m)
  obtain a s1 s2 where t: "next_try [0] engine_skip = Some (TryThrow (Failure 0), a, s1, [])"
    and na: "next_after (TryThrow (Failure 0)) a s1 = (Again, s2)"
    and g: "fst (generator_next (generator s2)) = None"
    and f: "find (settled s2) (runningTaskPool s2) = Some \<lparr>pid = 0, fate = Rejected (Failure 0)\<rparr>"
    and h: "b_errorHandler s2 = Some (\<lambda>e r. Skip)"
    by (simp add: engine_skip_def eval_defs)
  have "next m [] s2 = None"
    by (rule skip_never_returns [OF g f _ h]) simp_all
  with t na Suc show ?thesis by simp
qed

subsection \<open>After the failing step\<close>



subsection \<open>The policy on a range whose item 2 fails\<close>



end
